theory Spec2Isabelle
  imports Main "HOL-Library.List_Lexorder" "HOL-Library.Char_ord" "HOL-Library.Option_ord"
    "HOL-Library.Product_Lexorder"
begin

section \<open>Errors\<close>

text \<open>
  The exceptions the modelled code can let escape: \<open>OverflowError\<close> from
  \<^verbatim>\<open>datetime\<close> arithmetic, \<open>PostgresError\<close> for anything raised while a
  connection is acquired or the query runs, \<open>APIError\<close> for anything raised by the
  spreadsheet client (credentials, network, API).
\<close>

datatype py_error = OverflowError | PostgresError | APIError

section \<open>Decimal rendering of numbers\<close>

text \<open>
  Python's \<^verbatim>\<open>str(n)\<close> for a non-negative integer: its decimal digits, most
  significant first, without padding.
\<close>

definition digit_char :: "nat \<Rightarrow> char" where
  "digit_char d = char_of (48 + d)"

fun str_nat :: "nat \<Rightarrow> string" where
  "str_nat n = (if n < 10 then [digit_char n] else str_nat (n div 10) @ [digit_char (n mod 10)])"

declare str_nat.simps [simp del]

definition is_digit :: "char \<Rightarrow> bool" where
  "is_digit c = (CHR ''0'' \<le> c \<and> c \<le> CHR ''9'')"

definition digit_val :: "char \<Rightarrow> nat" where
  "digit_val c = of_char c - 48"

section \<open>The barcode generator (eangenerator.py)\<close>

text \<open>The extended slice \<^verbatim>\<open>xs[0::2]\<close>; \<^verbatim>\<open>xs[1::2]\<close> is \<open>every_other (drop 1 xs)\<close>.\<close>

fun every_other :: "'a list \<Rightarrow> 'a list" where
  "every_other [] = []"
| "every_other [x] = [x]"
| "every_other (x # y # zs) = x # every_other zs"

text \<open>
  \<^verbatim>\<open>genera_ean13()\<close> draws twelve digits with \<^verbatim>\<open>random.randint(0, 9)\<close>. The
  model takes the list of the values drawn as its argument; everything after the draw is
  the source's computation, line by line.
\<close>

definition genera_ean13 :: "nat list \<Rightarrow> string" where
  "genera_ean13 draws =
     (let digits = draws;
          somma_odd = sum_list (every_other digits);
          somma_even = sum_list (every_other (drop 1 digits));
          totale = somma_odd + somma_even * 3;
          checksum = (10 - (totale mod 10)) mod 10;
          digits = digits @ [checksum]
      in concat (map str_nat digits))"

section \<open>Python datetime values\<close>

text \<open>
  A \<^verbatim>\<open>datetime\<close> object: its civil fields and its \<^verbatim>\<open>tzinfo\<close>. A naive
  value has \<open>tzinfo = None\<close>; an aware value carries its UTC offset in seconds
  (what \<^verbatim>\<open>utcoffset()\<close> returns).
\<close>

record datetime =
  year :: int
  month :: int
  day :: int
  hour :: int
  minute :: int
  second :: int
  microsecond :: int
  tzinfo :: "int option"

text \<open>
  The calendar arithmetic of the \<^verbatim>\<open>datetime\<close> module, which \<^verbatim>\<open>astimezone\<close>
  runs: the proleptic Gregorian ordinal of a date (day 1 is 0001-01-01) and its inverse,
  with the module's tables. Index 0 of both tables is the placeholder \<open>-1\<close>, as in the
  module.
\<close>

definition is_leap :: "int \<Rightarrow> bool" where
  "is_leap y = (y mod 4 = 0 \<and> (y mod 100 \<noteq> 0 \<or> y mod 400 = 0))"

definition days_before_year :: "int \<Rightarrow> int" where
  "days_before_year y = (let y = y - 1 in y * 365 + y div 4 - y div 100 + y div 400)"

definition DAYS_IN_MONTH :: "int list" where
  "DAYS_IN_MONTH = [-1, 31, 28, 31, 30, 31, 30, 31, 31, 30, 31, 30, 31]"

definition DAYS_BEFORE_MONTH :: "int list" where
  "DAYS_BEFORE_MONTH = [-1, 0, 31, 59, 90, 120, 151, 181, 212, 243, 273, 304, 334]"


definition days_before_month :: "int \<Rightarrow> int \<Rightarrow> int" where
  "days_before_month y m = DAYS_BEFORE_MONTH ! nat m + (if m > 2 \<and> is_leap y then 1 else 0)"

definition ymd2ord :: "int \<Rightarrow> int \<Rightarrow> int \<Rightarrow> int" where
  "ymd2ord y m d = days_before_year y + days_before_month y m + d"

definition ord2ymd :: "int \<Rightarrow> int \<times> int \<times> int" where
  "ord2ymd n0 =
     (let n = n0 - 1;
          n400 = n div 146097; n = n mod 146097;
          y = n400 * 400 + 1;
          n100 = n div 36524; n = n mod 36524;
          n4 = n div 1461; n = n mod 1461;
          n1 = n div 365; n = n mod 365;
          y = y + n100 * 100 + n4 * 4 + n1
      in if n1 = 4 \<or> n100 = 4 then (y - 1, 12, 31)
         else
           let leapyear = (n1 = 3 \<and> (n4 \<noteq> 24 \<or> n100 = 3));
               m = (n + 50) div 32;
               preceding = DAYS_BEFORE_MONTH ! nat m + (if m > 2 \<and> leapyear then 1 else 0)
           in if preceding > n
              then let m = m - 1;
                       preceding = preceding - (DAYS_IN_MONTH ! nat m + (if m = 2 \<and> leapyear then 1 else 0))
                   in (y, m, n - preceding + 1)
              else (y, m, n - preceding + 1))"

definition MAXORDINAL :: int where
  "MAXORDINAL = 3652059"


text \<open>
  \<open>seconds_of\<close> is the position of the wall-clock fields on the time line, in seconds
  from the start of ordinal day 0. \<open>add_seconds\<close> is \<^verbatim>\<open>datetime + timedelta\<close> for a
  whole number of seconds: the sum is split into days and seconds of the day, and a day
  outside \<open>1..MAXORDINAL\<close> (years 1 to 9999) raises \<^verbatim>\<open>OverflowError\<close>. The
  microseconds and the \<^verbatim>\<open>tzinfo\<close> are kept.
\<close>

definition seconds_of :: "datetime \<Rightarrow> int" where
  "seconds_of dt =
     ymd2ord (year dt) (month dt) (day dt) * 86400 + hour dt * 3600 + minute dt * 60 + second dt"

definition add_seconds :: "datetime \<Rightarrow> int \<Rightarrow> py_error + datetime" where
  "add_seconds dt delta =
     (let total = seconds_of dt + delta;
          days = total div 86400;
          secs = total mod 86400;
          hr = secs div 3600; rem = secs mod 3600;
          mi = rem div 60; se = rem mod 60
      in if 0 < days \<and> days \<le> MAXORDINAL
         then (case ord2ymd days of (y, m, d) \<Rightarrow>
                 Inr (dt\<lparr>year := y, month := m, day := d, hour := hr, minute := mi, second := se\<rparr>))
         else Inl OverflowError)"

text \<open>
  \<open>unix_time\<close> reads the fields as UTC and counts seconds from 1970-01-01, whose ordinal
  is 719163.

  \<^verbatim>\<open>dt.astimezone(tz)\<close> for an aware \<open>dt\<close> with offset \<open>myoffset\<close>: subtract the
  offset to reach UTC, then let the zone add its own offset for that instant
  (\<^verbatim>\<open>tz.fromutc\<close>). The zone is a function from the UTC instant, in Unix seconds, to
  the zone's UTC offset in seconds at that instant.
\<close>

definition unix_time :: "datetime \<Rightarrow> int" where
  "unix_time dt = seconds_of dt - 719163 * 86400"

definition astimezone :: "(int \<Rightarrow> int) \<Rightarrow> datetime \<Rightarrow> int \<Rightarrow> py_error + datetime" where
  "astimezone tz dt myoffset =
     (case add_seconds dt (- myoffset) of
        Inl e \<Rightarrow> Inl e
      | Inr utc \<Rightarrow>
          (case add_seconds utc (tz (unix_time utc)) of
             Inl e \<Rightarrow> Inl e
           | Inr loc \<Rightarrow> Inr (loc\<lparr>tzinfo := Some (tz (unix_time utc))\<rparr>)))"

text \<open>
  \<^verbatim>\<open>strftime("%H:%M %d/%m/%Y")\<close>: each field as a zero-padded decimal number, two
  digits for hour, minute, day and month, four for the year (as the Python documentation
  gives \<^verbatim>\<open>%Y\<close>; the digits of years from 1000 on do not depend on the padding).
\<close>

definition zero_pad :: "nat \<Rightarrow> int \<Rightarrow> string" where
  "zero_pad w n = (let s = str_nat (nat n) in replicate (w - length s) CHR ''0'' @ s)"

definition strftime_HM_dmY :: "datetime \<Rightarrow> string" where
  "strftime_HM_dmY dt =
     zero_pad 2 (hour dt) @ '':'' @ zero_pad 2 (minute dt) @ '' '' @
     zero_pad 2 (day dt) @ ''/'' @ zero_pad 2 (month dt) @ ''/'' @ zero_pad 4 (year dt)"

section \<open>Formatting the event time (app.py)\<close>

text \<open>
  The zone table behind \<^verbatim>\<open>ZoneInfo("Europe/Rome")\<close> is data of the time zone
  database, not of the repository, so the function takes it as the parameter \<open>rome\<close>.
  \<^verbatim>\<open>ZoneInfo("UTC")\<close> is the offset 0. The three steps are the source's: \<open>None\<close>
  gives the empty string, a naive value has UTC attached, and the result of
  \<^verbatim>\<open>astimezone\<close> is formatted.
\<close>

definition format_event_time_ita :: "(int \<Rightarrow> int) \<Rightarrow> datetime option \<Rightarrow> py_error + string" where
  "format_event_time_ita rome event_time =
     (case event_time of
        None \<Rightarrow> Inr ''''
      | Some dt \<Rightarrow>
          (let dt = (if tzinfo dt = None then dt\<lparr>tzinfo := Some 0\<rparr> else dt)
           in case astimezone rome dt (the (tzinfo dt)) of
                Inl e \<Rightarrow> Inl e
              | Inr event_time_it \<Rightarrow> Inr (strftime_HM_dmY event_time_it)))"

text \<open>
  The rule the time zone database has for Europe/Rome from 1996 on (the EU rule): summer
  time, UTC+2, from 01:00 UTC on the last Sunday of March until 01:00 UTC on the last
  Sunday of October, and UTC+1 otherwise. It instantiates \<open>rome\<close> in the examples.
  \<open>weekday\<close> is \<^verbatim>\<open>date.weekday()\<close> on an ordinal: Monday is 0, Sunday is 6.
\<close>

definition weekday :: "int \<Rightarrow> int" where
  "weekday ord = (ord + 6) mod 7"

definition last_sunday :: "int \<Rightarrow> int \<Rightarrow> int" where
  "last_sunday y m = (let d = ymd2ord y m 31 in d - (weekday d + 1) mod 7)"

definition europe_rome :: "int \<Rightarrow> int" where
  "europe_rome t =
     (let ord = t div 86400 + 719163;
          y = fst (ord2ymd ord);
          start = (last_sunday y 3 - 719163) * 86400 + 3600;
          stop = (last_sunday y 10 - 719163) * 86400 + 3600
      in if start \<le> t \<and> t < stop then 7200 else 3600)"






section \<open>The tables and the derived-view query\<close>

text \<open>
  The two tables as the schema declares them. \<open>event_time\<close> is nullable; a row holds the
  value the driver hands to Python, a \<^verbatim>\<open>datetime\<close> or \<open>None\<close>. A table is the list
  of its rows.
\<close>

datatype direction = CHECKIN | CHECKOUT

record user_row =
  u_barcode :: string
  u_nome :: string
  u_cognome :: string

record log_row =
  l_id :: int
  l_barcode :: string
  l_event_time :: "datetime option"
  l_direction :: direction

record database =
  users :: "user_row list"
  log :: "log_row list"

text \<open>One row of the query's result: the four columns of its select list.\<close>

record view_row =
  barcode :: string
  nome :: string
  cognome :: string
  event_time :: "datetime option"

text \<open>
  Timestamps are ordered by the instant they denote (in microseconds). In
  \<^verbatim>\<open>ORDER BY event_time DESC\<close> PostgreSQL puts NULL first; \<open>desc_nulls_first\<close> is a
  key whose ascending order is that order.
\<close>

definition instant :: "datetime \<Rightarrow> int" where
  "instant dt =
     (seconds_of dt - (case tzinfo dt of None \<Rightarrow> 0 | Some off \<Rightarrow> off)) * 1000000 + microsecond dt"

definition desc_nulls_first :: "datetime option \<Rightarrow> int option" where
  "desc_nulls_first t = map_option (\<lambda>dt. - instant dt) t"

text \<open>
  \<^verbatim>\<open>SELECT DISTINCT ON (barcode)\<close> keeps the first row of each set of rows with the
  same barcode, in the order the \<^verbatim>\<open>ORDER BY\<close> of the subquery gives.
\<close>

fun distinct_on_barcode :: "log_row list \<Rightarrow> log_row list" where
  "distinct_on_barcode [] = []"
| "distinct_on_barcode (r # rs) =
     r # distinct_on_barcode (filter (\<lambda>s. l_barcode s \<noteq> l_barcode r) rs)"

text \<open>
  \<^verbatim>\<open>LAST_INBOUND_SQL\<close>, clause by clause: the subquery \<open>l\<close> (the log ordered by
  barcode and by descending event time, one row kept per barcode), the inner join with
  \<open>users\<close> on the barcode, the \<^verbatim>\<open>WHERE l.direction = 'CHECKIN'\<close> filter, the final
  ordering, the select list. SQL leaves the order of rows with equal keys open; the model
  sorts stably, so that the result is a function of the tables.
\<close>

definition LAST_INBOUND_SQL :: "database \<Rightarrow> view_row list" where
  "LAST_INBOUND_SQL db =
     (let l = distinct_on_barcode
                (sort_key (\<lambda>r. (l_barcode r, desc_nulls_first (l_event_time r))) (log db));
          joined = concat (map (\<lambda>l. map (\<lambda>u. (u, l))
                                  (filter (\<lambda>u. u_barcode u = l_barcode l) (users db))) l);
          selected = filter (\<lambda>(u, l). l_direction l = CHECKIN) joined;
          ordered = sort_key (\<lambda>(u, l). desc_nulls_first (l_event_time l)) selected
      in map (\<lambda>(u, l). \<lparr>barcode = u_barcode u, nome = u_nome u, cognome = u_cognome u,
                          event_time = l_event_time l\<rparr>) ordered)"

text \<open>
  What the amended claim C1 calls "more recent": \<open>a\<close> comes strictly before \<open>b\<close> in
  descending order, NULL first.
\<close>

definition more_recent :: "datetime option \<Rightarrow> datetime option \<Rightarrow> bool" where
  "more_recent a b =
     (case b of
        None \<Rightarrow> False
      | Some y \<Rightarrow> (case a of None \<Rightarrow> True | Some x \<Rightarrow> instant y < instant x))"

section \<open>Fetching the rows for the sheet (app.py)\<close>

text \<open>
  \<open>pool\<close> is what acquiring a connection and running the query gives: the tables, or
  the exception raised. The loop appends one four-field row per record, and an exception
  of the formatter leaves the loop.
\<close>

fun fetch_loop :: "(int \<Rightarrow> int) \<Rightarrow> view_row list \<Rightarrow> string list list \<Rightarrow> py_error + string list list" where
  "fetch_loop rome [] result = Inr result"
| "fetch_loop rome (r # rows) result =
     (case format_event_time_ita rome (event_time r) of
        Inl e \<Rightarrow> Inl e
      | Inr event_time_str \<Rightarrow>
          fetch_loop rome rows (result @ [[barcode r, nome r, cognome r, event_time_str]]))"

definition fetch_last_inbound_rows :: "(int \<Rightarrow> int) \<Rightarrow> py_error + database \<Rightarrow> py_error + string list list" where
  "fetch_last_inbound_rows rome pool =
     (case pool of
        Inl e \<Rightarrow> Inl e
      | Inr db \<Rightarrow> fetch_loop rome (LAST_INBOUND_SQL db) [])"

section \<open>The spreadsheet client\<close>

text \<open>
  The worksheet as the program can observe and change it: the module's three lazily
  filled globals, the contents of the range \<open>A2:D\<close> (a list of rows), the client calls
  made so far with their arguments, and the outcome of the coming interactions with the
  service (\<open>True\<close>: this one raises). Once the list is used up every interaction
  succeeds.
\<close>

datatype sheet_call = batch_clear "string list" | update string "string list list"

record sheets_api =
  g_credentials :: bool
  g_client :: bool
  g_worksheet :: bool
  cells :: "string list list"
  calls :: "sheet_call list"
  outages :: "bool list"

definition external_call :: "sheets_api \<Rightarrow> bool \<times> sheets_api" where
  "external_call api =
     (case outages api of
        [] \<Rightarrow> (True, api)
      | down # rest \<Rightarrow> (\<not> down, api\<lparr>outages := rest\<rparr>))"

text \<open>
  \<^verbatim>\<open>get_worksheet\<close>: nothing happens when the worksheet is cached; otherwise the
  credentials are loaded and the client is authorised unless already there, and the
  worksheet is opened. Each of the three may raise, and what was set before stays set.
\<close>

definition get_worksheet :: "sheets_api \<Rightarrow> py_error option \<times> sheets_api" where
  "get_worksheet api =
     (if g_worksheet api then (None, api)
      else
        let (ok1, api1) = (if g_credentials api then (True, api) else external_call api)
        in if \<not> ok1 then (Some APIError, api1)
           else
             let api1 = api1\<lparr>g_credentials := True\<rparr>;
                 (ok2, api2) = (if g_client api1 then (True, api1) else external_call api1)
             in if \<not> ok2 then (Some APIError, api2)
                else
                  let api2 = api2\<lparr>g_client := True\<rparr>;
                      (ok3, api3) = external_call api2
                  in if \<not> ok3 then (Some APIError, api3)
                     else (None, api3\<lparr>g_worksheet := True\<rparr>))"

text \<open>
  The two client methods the program calls. Only the ranges it uses are interpreted:
  clearing \<open>A2:D\<close> empties the modelled range, and updating at \<open>A2\<close> lays the rows over
  what is there, from the top-left corner.
\<close>

fun overlay :: "'a list list \<Rightarrow> 'a list list \<Rightarrow> 'a list list" where
  "overlay [] old = old"
| "overlay (r # rs) [] = r # overlay rs []"
| "overlay (r # rs) (x # xs) = (r @ drop (length r) x) # overlay rs xs"

definition ws_batch_clear :: "string list \<Rightarrow> sheets_api \<Rightarrow> py_error option \<times> sheets_api" where
  "ws_batch_clear ranges api =
     (let api = api\<lparr>calls := calls api @ [batch_clear ranges]\<rparr>;
          (ok, api) = external_call api
      in if \<not> ok then (Some APIError, api)
         else (None, if ''A2:D'' \<in> set ranges then api\<lparr>cells := []\<rparr> else api))"

definition ws_update :: "string \<Rightarrow> string list list \<Rightarrow> sheets_api \<Rightarrow> py_error option \<times> sheets_api" where
  "ws_update range_name values api =
     (let api = api\<lparr>calls := calls api @ [update range_name values]\<rparr>;
          (ok, api) = external_call api
      in if \<not> ok then (Some APIError, api)
         else (None, if range_name = ''A2'' then api\<lparr>cells := overlay values (cells api)\<rparr> else api))"

section \<open>Writing and refreshing the sheet (app.py)\<close>

text \<open>
  \<^verbatim>\<open>write_full_table_to_sheet\<close> gets the worksheet, clears \<open>A2:D\<close>, returns when
  there are no rows, and otherwise writes them at \<open>A2\<close>; an exception of any of the
  calls ends it there. \<^verbatim>\<open>refresh_sheet_from_db\<close> fetches the rows and hands them
  to it. Both return the exception raised, if any, and the worksheet as they leave it.
\<close>

definition write_full_table_to_sheet :: "string list list \<Rightarrow> sheets_api \<Rightarrow> py_error option \<times> sheets_api" where
  "write_full_table_to_sheet rows_for_sheet api =
     (case get_worksheet api of
        (Some e, api) \<Rightarrow> (Some e, api)
      | (None, api) \<Rightarrow>
          (case ws_batch_clear [''A2:D''] api of
             (Some e, api) \<Rightarrow> (Some e, api)
           | (None, api) \<Rightarrow>
               if rows_for_sheet = [] then (None, api)
               else ws_update ''A2'' rows_for_sheet api))"

definition refresh_sheet_from_db ::
  "(int \<Rightarrow> int) \<Rightarrow> py_error + database \<Rightarrow> sheets_api \<Rightarrow> py_error option \<times> sheets_api" where
  "refresh_sheet_from_db rome pool api =
     (case fetch_last_inbound_rows rome pool of
        Inl e \<Rightarrow> (Some e, api)
      | Inr rows_for_sheet \<Rightarrow> write_full_table_to_sheet rows_for_sheet api)"

section \<open>The notification dispatcher (app.py)\<close>

text \<open>
  A change event is the dictionary the listener puts on the queue; a message is the
  dictionary sent to the subscribers. A websocket is identified by a number.
\<close>

record event =
  channel :: string
  payload :: string

record message =
  msg_type :: string
  msg_channel :: string
  msg_payload :: string

text \<open>
  The registry \<^verbatim>\<open>connected_websockets\<close> is a set; it is kept as a list without
  repetitions, whose order stands for the order in which Python iterates the set.
\<close>

datatype registry_op = add nat | discard nat

fun apply_op :: "registry_op \<Rightarrow> nat list \<Rightarrow> nat list" where
  "apply_op (add ws) reg = (if ws \<in> set reg then reg else reg @ [ws])"
| "apply_op (discard ws) reg = removeAll ws reg"

text \<open>
  What the rest of the process does to one iteration of the dispatcher: for each
  websocket, whether \<^verbatim>\<open>send_json\<close> raises, and which registrations and
  unregistrations the connection handlers perform while the dispatcher is suspended in
  that \<^verbatim>\<open>await\<close>.
\<close>

record send_env =
  send_raises :: "nat \<Rightarrow> bool"
  meanwhile :: "nat \<Rightarrow> registry_op list"

text \<open>
  The state of the process: the queue, the registry, the broadcasts made so far (the
  message and the websockets it was sent to, in order), the sync tasks created and not
  yet run, the outcomes of the sync tasks that ran, and the worksheet.
\<close>

record system =
  notification_queue :: "event list"
  connected_websockets :: "nat list"
  broadcasts :: "(message \<times> nat list) list"
  pending_tasks :: nat
  task_results :: "py_error option list"
  sheets :: sheets_api

text \<open>
  The loop \<^verbatim>\<open>for ws in list(connected_websockets)\<close>: it walks the copy taken before
  the first send, while the registry itself changes under it.
\<close>

fun send_loop :: "send_env \<Rightarrow> nat list \<Rightarrow> nat list \<Rightarrow> nat list \<Rightarrow> nat list \<Rightarrow> nat list \<times> nat list \<times> nat list" where
  "send_loop env [] registry dead attempted = (registry, dead, attempted)"
| "send_loop env (ws # rest) registry dead attempted =
     (let registry = fold apply_op (meanwhile env ws) registry
      in if send_raises env ws
         then send_loop env rest registry (dead @ [ws]) (attempted @ [ws])
         else send_loop env rest registry dead (attempted @ [ws]))"

text \<open>
  One iteration of \<^verbatim>\<open>while True\<close> in \<^verbatim>\<open>notification_dispatcher\<close>. On an empty
  queue the \<^verbatim>\<open>await notification_queue.get()\<close> does not return and nothing changes.
  Otherwise the event is taken, the message is built and sent, the dead websockets are
  discarded, and \<^verbatim>\<open>asyncio.create_task\<close> adds a sync task. Cancellation of the
  dispatcher (at shutdown) is outside the model.
\<close>

definition notification_dispatcher :: "send_env \<Rightarrow> system \<Rightarrow> system" where
  "notification_dispatcher env s =
     (case notification_queue s of
        [] \<Rightarrow> s
      | event # queue \<Rightarrow>
          let message = \<lparr>msg_type = ''logs_changed'', msg_channel = channel event,
                         msg_payload = payload event\<rparr>;
              (registry, dead, attempted) =
                 send_loop env (connected_websockets s) (connected_websockets s) [] [];
              registry = fold (\<lambda>ws reg. removeAll ws reg) dead registry
          in s\<lparr>notification_queue := queue,
               connected_websockets := registry,
               broadcasts := broadcasts s @ [(message, attempted)],
               pending_tasks := pending_tasks s + 1\<rparr>)"

text \<open>
  A task made by \<^verbatim>\<open>asyncio.create_task\<close> runs \<^verbatim>\<open>refresh_sheet_from_db\<close> on its
  own; what it returns or raises is kept in the task and nobody awaits it.
\<close>

definition run_task :: "(int \<Rightarrow> int) \<Rightarrow> py_error + database \<Rightarrow> system \<Rightarrow> system" where
  "run_task rome pool s =
     (if pending_tasks s = 0 then s
      else
        let (outcome, api) = refresh_sheet_from_db rome pool (sheets s)
        in s\<lparr>pending_tasks := pending_tasks s - 1,
             task_results := task_results s @ [outcome],
             sheets := api\<rparr>)"

text \<open>
  The event loop interleaves the listener's callback, the websocket handlers, the
  dispatcher and the sync tasks. A run of the process is a list of steps, each one of
  these doing its next piece of work.
\<close>

datatype step =
    Notify event
  | Connect nat
  | Disconnect nat
  | Dispatch send_env
  | RunTask "py_error + database"

fun exec :: "(int \<Rightarrow> int) \<Rightarrow> step \<Rightarrow> system \<Rightarrow> system" where
  "exec rome (Notify ev) s = s\<lparr>notification_queue := notification_queue s @ [ev]\<rparr>"
| "exec rome (Connect ws) s = s\<lparr>connected_websockets := apply_op (add ws) (connected_websockets s)\<rparr>"
| "exec rome (Disconnect ws) s = s\<lparr>connected_websockets := apply_op (discard ws) (connected_websockets s)\<rparr>"
| "exec rome (Dispatch env) s = notification_dispatcher env s"
| "exec rome (RunTask pool) s = run_task rome pool s"

definition run :: "(int \<Rightarrow> int) \<Rightarrow> step list \<Rightarrow> system \<Rightarrow> system" where
  "run rome steps s = fold (exec rome) steps s"

text \<open>Vocabulary for the claims about runs.\<close>

abbreviation logs_changed :: "event \<Rightarrow> message" where
  "logs_changed ev \<equiv>
     \<lparr>msg_type = ''logs_changed'', msg_channel = channel ev, msg_payload = payload ev\<rparr>"

fun notified :: "step list \<Rightarrow> event list" where
  "notified [] = []"
| "notified (Notify ev # steps) = ev # notified steps"
| "notified (_ # steps) = notified steps"

fun dispatches :: "step list \<Rightarrow> nat" where
  "dispatches [] = 0"
| "dispatches (Dispatch env # steps) = Suc (dispatches steps)"
| "dispatches (_ # steps) = dispatches steps"

fun is_RunTask :: "step \<Rightarrow> bool" where
  "is_RunTask (RunTask pool) = True"
| "is_RunTask _ = False"

fun adds :: "nat \<Rightarrow> step \<Rightarrow> bool" where
  "adds w (Connect v) = (v = w)"
| "adds w (Dispatch env) = (\<exists>ws. add w \<in> set (meanwhile env ws))"
| "adds w _ = False"

definition dispatcher_view :: "system \<Rightarrow> event list \<times> nat list \<times> (message \<times> nat list) list" where
  "dispatcher_view s = (notification_queue s, connected_websockets s, broadcasts s)"

section \<open>Example data\<close>

text \<open>
  One user with check-ins at 08:00 and 09:00 UTC, a check-out at 17:30 and a check-in
  without timestamp; a sheet that still holds the rows of the day before; a process with
  two events queued and three subscribers, and three behaviours of the network and of the
  connection handlers during a broadcast.
\<close>

definition utc_2024_01_15 :: "int \<Rightarrow> int \<Rightarrow> datetime" where
  "utc_2024_01_15 h mi =
     \<lparr>year = 2024, month = 1, day = 15, hour = h, minute = mi, second = 0, microsecond = 0,
      tzinfo = Some 0\<rparr>"

definition ada :: user_row where
  "ada = \<lparr>u_barcode = ''4006381333931'', u_nome = ''Ada'', u_cognome = ''Rossi''\<rparr>"

definition checkin_08 :: log_row where
  "checkin_08 = \<lparr>l_id = 1, l_barcode = ''4006381333931'',
     l_event_time = Some (utc_2024_01_15 8 0), l_direction = CHECKIN\<rparr>"

definition checkin_09 :: log_row where
  "checkin_09 = \<lparr>l_id = 2, l_barcode = ''4006381333931'',
     l_event_time = Some (utc_2024_01_15 9 0), l_direction = CHECKIN\<rparr>"

definition checkout_17 :: log_row where
  "checkout_17 = \<lparr>l_id = 3, l_barcode = ''4006381333931'',
     l_event_time = Some (utc_2024_01_15 17 30), l_direction = CHECKOUT\<rparr>"

definition checkin_null :: log_row where
  "checkin_null = \<lparr>l_id = 4, l_barcode = ''4006381333931'',
     l_event_time = None, l_direction = CHECKIN\<rparr>"

definition sheet_stale :: sheets_api where
  "sheet_stale =
     \<lparr>g_credentials = False, g_client = False, g_worksheet = False,
      cells = [[''0000000000017'', ''Bo'', ''Bianchi'', ''08:15 14/01/2024''],
               [''4006381333931'', ''Ada'', ''Rossi'', ''07:30 14/01/2024'']],
      calls = [], outages = []\<rparr>"

definition two_events :: "event list" where
  "two_events = [\<lparr>channel = ''log_changes'', payload = ''1''\<rparr>,
                 \<lparr>channel = ''log_changes'', payload = ''2''\<rparr>]"

definition three_subscribers :: system where
  "three_subscribers =
     \<lparr>notification_queue = two_events, connected_websockets = [1, 2, 3], broadcasts = [],
      pending_tasks = 0, task_results = [], sheets = sheet_stale\<rparr>"

definition second_fails :: send_env where
  "second_fails = \<lparr>send_raises = (\<lambda>ws. ws = 2), meanwhile = (\<lambda>ws. [])\<rparr>"

definition busy_handlers :: send_env where
  "busy_handlers =
     \<lparr>send_raises = (\<lambda>ws. False),
      meanwhile = (\<lambda>ws. if ws = 1 then [add 9, discard 3] else [])\<rparr>"

definition all_delivered :: send_env where
  "all_delivered = \<lparr>send_raises = (\<lambda>ws. False), meanwhile = (\<lambda>ws. [])\<rparr>"

definition ada_row :: "string list" where
  "ada_row = [''4006381333931'', ''Ada'', ''Rossi'', ''10:00 15/01/2024'']"

definition sheet_down :: sheets_api where
  "sheet_down = sheet_stale\<lparr>outages := [True]\<rparr>"

section \<open>Properties of the barcode generator\<close>

lemma str_nat_digit: "d < 10 \<Longrightarrow> str_nat d = [digit_char d]"
  by (simp add: str_nat.simps)

lemma digit_val_digit_char: "d < 10 \<Longrightarrow> digit_val (digit_char d) = d"
  by (simp add: digit_val_def digit_char_def)

lemma is_digit_digit_char: "d < 10 \<Longrightarrow> is_digit (digit_char d)"
  unfolding is_digit_def digit_char_def less_eq_char_def by simp

lemma list_of_length_12:
  assumes "length (xs::'a list) = 12"
  obtains a b c d e f g h i j k l where "xs = [a,b,c,d,e,f,g,h,i,j,k,l]"
proof -
  from assms have "\<exists>a b c d e f g h i j k l. xs = [a,b,c,d,e,f,g,h,i,j,k,l]"
    by (simp add: eval_nat_numeral length_Suc_conv) blast
  with that show ?thesis by blast
qed

lemma ean_checksum_closes: "((t::nat) + (10 - t mod 10) mod 10) mod 10 = 0"
proof -
  define r where "r = t mod 10"
  have r10: "r < 10" by (simp add: r_def)
  have "(r + (10 - r) mod 10) mod 10 = 0"
  proof (cases "r = 0")
    case True then show ?thesis by simp
  next
    case False
    with r10 have "(10 - r) mod 10 = 10 - r" by simp
    with r10 show ?thesis by simp
  qed
  then have "(t mod 10 + (10 - t mod 10) mod 10) mod 10 = 0" by (simp add: r_def)
  then show ?thesis by (simp add: mod_add_left_eq)
qed

text \<open>
  Claim C10. Whatever twelve digits are drawn, the string \<open>genera_ean13\<close> returns has
  exactly 13 characters, all of them decimal digits, and the sum of the digits in the
  odd positions (1st, 3rd, ..., 13th) plus three times the sum of the digits in the even
  positions (2nd, 4th, ..., 12th) is a multiple of 10.
\<close>

theorem genera_ean13_valid:
  assumes len: "length draws = 12" and rng: "list_all (\<lambda>d. d \<le> 9) draws"
  shows "length (genera_ean13 draws) = 13 \<and> list_all is_digit (genera_ean13 draws) \<and>
    (let v = (\<lambda>i. digit_val (genera_ean13 draws ! i)) in
      ((v 0 + v 2 + v 4 + v 6 + v 8 + v 10 + v 12) + 3 * (v 1 + v 3 + v 5 + v 7 + v 9 + v 11))
        mod 10 = 0)"
proof -
  from len obtain a b c d e f g h i j k l where xs: "draws = [a,b,c,d,e,f,g,h,i,j,k,l]"
    by (rule list_of_length_12)
  define t where "t = sum_list (every_other draws) + sum_list (every_other (drop 1 draws)) * 3"
  define ck where "ck = (10 - t mod 10) mod 10"
  have ck10: "ck < 10" by (simp add: ck_def)
  from rng xs have small: "a < 10" "b < 10" "c < 10" "d < 10" "e < 10" "f < 10"
      "g < 10" "h < 10" "i < 10" "j < 10" "k < 10" "l < 10" by simp_all
  have t_eq: "t = (a + c + e + g + i + k) + 3 * (b + d + f + h + j + l)"
    by (simp add: t_def xs)
  have "genera_ean13 draws = concat (map str_nat (draws @ [ck]))"
    by (simp add: genera_ean13_def Let_def t_def ck_def)
  then have res: "genera_ean13 draws = map digit_char [a,b,c,d,e,f,g,h,i,j,k,l,ck]"
    using small ck10 by (simp add: xs str_nat_digit)
  have sum0: "(t + ck) mod 10 = 0"
    unfolding ck_def by (rule ean_checksum_closes)
  have nth: "map (\<lambda>i. digit_val (genera_ean13 draws ! i)) [0,1,2,3,4,5,6,7,8,9,10,11,12]
      = [a,b,c,d,e,f,g,h,i,j,k,l,ck]"
    unfolding res using small ck10 by (simp add: digit_val_digit_char)
  have lenr: "length (genera_ean13 draws) = 13" by (simp add: res)
  have digs: "list_all is_digit (genera_ean13 draws)"
    using small ck10 by (simp add: res is_digit_digit_char)
  have regroup: "(a + c + e + g + i + k + ck) + 3 * (b + d + f + h + j + l) = t + ck"
    by (simp add: t_eq)
  have "((a + c + e + g + i + k + ck) + 3 * (b + d + f + h + j + l)) mod 10 = 0"
    unfolding regroup by (rule sum0)
  with nth lenr digs show ?thesis
    by (simp add: Let_def)
qed

theorem genera_ean13_valid_witness:
  "length [4,0,0,6,3,8,1,3,3,3,9,3::nat] = 12 \<and>
   genera_ean13 [4,0,0,6,3,8,1,3,3,3,9,3] = ''4006381333931'' \<and>
   length (genera_ean13 [4,0,0,6,3,8,1,3,3,3,9,3]) = 13 \<and>
   list_all is_digit (genera_ean13 [4,0,0,6,3,8,1,3,3,3,9,3])"
proof -
  have "genera_ean13 [4,0,0,6,3,8,1,3,3,3,9,3] = ''4006381333931''"
    by code_simp
  with genera_ean13_valid [of "[4,0,0,6,3,8,1,3,3,3,9,3]"] show ?thesis
    by simp
qed

section \<open>Calendar arithmetic\<close>












section \<open>Zero padding and the rendered string\<close>










section \<open>Formatting the event time\<close>









section \<open>The derived-view query\<close>

lemma more_recent_iff: "more_recent a b \<longleftrightarrow> desc_nulls_first a < desc_nulls_first b"
  by (cases a; cases b) (simp_all add: more_recent_def desc_nulls_first_def)

lemma distinct_on_barcode_filter:
  "filter (\<lambda>r. l_barcode r = b) (distinct_on_barcode xs) = take 1 (filter (\<lambda>r. l_barcode r = b) xs)"
proof (induction xs rule: distinct_on_barcode.induct)
  case 1
  show ?case by simp
next
  case (2 r rs)
  show ?case
  proof (cases "l_barcode r = b")
    case True
    have "filter (\<lambda>s. l_barcode s = b) (filter (\<lambda>s. l_barcode s \<noteq> l_barcode r) rs) = []"
      by (simp add: True)
    with 2 True show ?thesis by simp
  next
    case False
    have "filter (\<lambda>s. l_barcode s = b) (filter (\<lambda>s. l_barcode s \<noteq> l_barcode r) rs)
        = filter (\<lambda>s. l_barcode s = b) rs"
      using False by (auto intro: filter_cong)
    with 2 False show ?thesis by simp
  qed
qed

lemma sort_key_least_first:
  fixes k :: "'a \<Rightarrow> 'k::linorder"
  assumes "x \<in> set xs" and "\<forall>y\<in>set xs. y \<noteq> x \<longrightarrow> k x < k y"
  shows "take 1 (sort_key k xs) = [x]"
proof -
  define ys where "ys = sort_key k xs"
  have set: "set ys = set xs" and srt: "sorted (map k ys)" by (simp_all add: ys_def)
  from assms(1) set obtain h t where ys: "ys = h # t" by (cases ys) auto
  have "h = x"
  proof (rule ccontr)
    assume "h \<noteq> x"
    moreover have "h \<in> set xs" using set ys by auto
    ultimately have "k x < k h" using assms(2) by blast
    moreover have "x \<in> set t" using assms(1) set ys \<open>h \<noteq> x\<close> by auto
    then have "k h \<le> k x" using srt ys by auto
    ultimately show False by simp
  qed
  then show ?thesis by (simp add: ys flip: ys_def)
qed

lemma filter_unique_key:
  assumes "distinct (map f xs)" "x \<in> set xs"
  shows "filter (\<lambda>y. f y = f x) xs = [x]"
  using assms
proof (induction xs)
  case Nil
  then show ?case by simp
next
  case (Cons a xs)
  show ?case
  proof (cases "a = x")
    case True
    from Cons.prems have "\<forall>y\<in>set xs. f y \<noteq> f x" unfolding True by (auto simp: image_iff)
    then have "filter (\<lambda>y. f y = f x) xs = []" by (simp add: filter_empty_conv)
    with True show ?thesis by simp
  next
    case False
    with Cons.prems have "x \<in> set xs" "distinct (map f xs)" by simp_all
    moreover from Cons.prems this have "f a \<noteq> f x" by (auto simp: image_iff)
    ultimately show ?thesis using Cons.IH by simp
  qed
qed

lemma filter_concat_join:
  "filter (\<lambda>(u, l). u_barcode u = b)
     (concat (map (\<lambda>l. map (\<lambda>u. (u, l)) (filter (\<lambda>u. u_barcode u = l_barcode l) us)) ls))
   = concat (map (\<lambda>l. map (\<lambda>u. (u, l)) (filter (\<lambda>u. u_barcode u = l_barcode l) us))
       (filter (\<lambda>l. l_barcode l = b) ls))"
proof (induction ls)
  case Nil
  show ?case by simp
next
  case (Cons l ls)
  have "filter (\<lambda>(u, l). u_barcode u = b) (map (\<lambda>u. (u, l)) (filter (\<lambda>u. u_barcode u = l_barcode l) us))
      = (if l_barcode l = b then map (\<lambda>u. (u, l)) (filter (\<lambda>u. u_barcode u = l_barcode l) us) else [])"
    by (auto simp: filter_map o_def filter_empty_conv intro: filter_cong)
  with Cons show ?case by simp
qed

text \<open>
  Claim C1 says that a barcode with at least one CHECKIN always has its row, whatever
  comes later. The query keeps the latest event of each barcode and only then filters on
  the direction: for one user with CHECKIN events at 08:00 and 09:00 the query returns the
  09:00 row, and with a CHECKOUT at 17:30 added it returns no row at all.
\<close>

theorem last_inbound_checkout_counterexample:
  "l_direction checkin_09 = CHECKIN \<and> l_barcode checkin_09 = u_barcode ada \<and>
   LAST_INBOUND_SQL \<lparr>users = [ada], log = [checkin_08, checkin_09]\<rparr> =
     [\<lparr>barcode = ''4006381333931'', nome = ''Ada'', cognome = ''Rossi'',
       event_time = Some (utc_2024_01_15 9 0)\<rparr>] \<and>
   LAST_INBOUND_SQL \<lparr>users = [ada], log = [checkin_08, checkin_09, checkout_17]\<rparr> = []"
  by code_simp

text \<open>
  Claim C1, amended. For every barcode of a user (barcodes being the key of \<open>users\<close>)
  whose most recent log event is a CHECKIN, the query returns exactly one row for that
  barcode, carrying the timestamp of that event, which is then the most recent CHECKIN,
  with the user's first and last name; when the most recent event of the barcode is a
  CHECKOUT, the query returns no row for it. The most recent event is the one that comes
  strictly before all others of the barcode in descending order of event time, NULL first.
\<close>

theorem last_inbound_latest_event:
  assumes pk: "distinct (map u_barcode (users db))"
    and usr: "u \<in> set (users db)"
    and ev: "l \<in> set (log db)" "l_barcode l = u_barcode u"
    and latest: "\<forall>l'\<in>set (log db). l_barcode l' = u_barcode u \<and> l' \<noteq> l \<longrightarrow>
           more_recent (l_event_time l) (l_event_time l')"
  shows "filter (\<lambda>r. barcode r = u_barcode u) (LAST_INBOUND_SQL db) =
     (if l_direction l = CHECKIN
      then [\<lparr>barcode = u_barcode u, nome = u_nome u, cognome = u_cognome u,
             event_time = l_event_time l\<rparr>]
      else [])"
proof -
  define b where "b = u_barcode u"
  define k :: "log_row \<Rightarrow> string \<times> int option" where "k = (\<lambda>r. (l_barcode r, desc_nulls_first (l_event_time r)))"
  define g :: "log_row \<Rightarrow> (user_row \<times> log_row) list" where "g = (\<lambda>l. map (\<lambda>u. (u, l)) (filter (\<lambda>u. u_barcode u = l_barcode l) (users db)))"
  define proj :: "user_row \<times> log_row \<Rightarrow> view_row" where "proj = (\<lambda>(u, l). \<lparr>barcode = u_barcode u, nome = u_nome u, cognome = u_cognome u,
                          event_time = l_event_time l\<rparr>)"
  define D where "D = distinct_on_barcode (sort_key k (log db))"
  have sql: "LAST_INBOUND_SQL db =
      map proj (sort_key (\<lambda>(u, l). desc_nulls_first (l_event_time l))
        (filter (\<lambda>(u, l). l_direction l = CHECKIN) (concat (map g D))))"
    unfolding LAST_INBOUND_SQL_def Let_def D_def k_def g_def proj_def by (rule refl)
  have top: "take 1 (sort_key k (filter (\<lambda>r. l_barcode r = b) (log db))) = [l]"
  proof (rule sort_key_least_first)
    show "l \<in> set (filter (\<lambda>r. l_barcode r = b) (log db))" using ev by (simp add: b_def)
    show "\<forall>y\<in>set (filter (\<lambda>r. l_barcode r = b) (log db)). y \<noteq> l \<longrightarrow> k l < k y"
      using latest ev by (auto simp: k_def b_def more_recent_iff)
  qed
  have "filter (\<lambda>r. l_barcode r = b) D = take 1 (filter (\<lambda>r. l_barcode r = b) (sort_key k (log db)))"
    unfolding D_def by (rule distinct_on_barcode_filter)
  also have "\<dots> = [l]" using top by (simp add: filter_sort)
  finally have Db: "filter (\<lambda>r. l_barcode r = b) D = [l]" .
  have gl: "g l = [(u, l)]"
    using filter_unique_key[OF pk usr] ev by (simp add: g_def)
  have "filter (\<lambda>(u, l). u_barcode u = b) (concat (map g D)) = concat (map g (filter (\<lambda>r. l_barcode r = b) D))"
    unfolding g_def by (rule filter_concat_join)
  also have "\<dots> = [(u, l)]" by (simp add: Db gl)
  finally have J: "filter (\<lambda>(u, l). u_barcode u = b) (concat (map g D)) = [(u, l)]" .
  have pb: "(\<lambda>r. barcode r = b) \<circ> proj = (\<lambda>(u, l). u_barcode u = b)"
    by (auto simp: proj_def fun_eq_iff)
  have "filter (\<lambda>r. barcode r = b) (LAST_INBOUND_SQL db) =
      map proj (sort_key (\<lambda>(u, l). desc_nulls_first (l_event_time l))
        (filter (\<lambda>(u, l). l_direction l = CHECKIN)
           (filter (\<lambda>(u, l). u_barcode u = b) (concat (map g D)))))"
    unfolding sql filter_map pb filter_sort
    by (simp add: conj_commute)
  also have "\<dots> = (if l_direction l = CHECKIN then [proj (u, l)] else [])"
    unfolding J by simp
  finally show ?thesis by (simp add: b_def proj_def)
qed

theorem last_inbound_latest_event_witness:
  "filter (\<lambda>r. barcode r = u_barcode ada)
     (LAST_INBOUND_SQL \<lparr>users = [ada], log = [checkin_08, checkin_09]\<rparr>) =
   [\<lparr>barcode = u_barcode ada, nome = u_nome ada, cognome = u_cognome ada,
     event_time = l_event_time checkin_09\<rparr>]"
proof -
  let ?db = "\<lparr>users = [ada], log = [checkin_08, checkin_09]\<rparr>"
  have h1: "distinct (map u_barcode (users ?db))" by simp
  have h2: "ada \<in> set (users ?db)" by simp
  have h3: "checkin_09 \<in> set (log ?db)" by simp
  have h4: "l_barcode checkin_09 = u_barcode ada" by (simp add: checkin_09_def ada_def)
  have m: "more_recent (l_event_time checkin_09) (l_event_time checkin_08)" by code_simp
  have h5: "\<forall>l'\<in>set (log ?db). l_barcode l' = u_barcode ada \<and> l' \<noteq> checkin_09 \<longrightarrow>
           more_recent (l_event_time checkin_09) (l_event_time l')"
    using m by simp
  have d: "l_direction checkin_09 = CHECKIN" by (simp add: checkin_09_def)
  from last_inbound_latest_event[OF h1 h2 h3 h4 h5] d show ?thesis by simp
qed

section \<open>Rows for the sheet\<close>

lemma fetch_loop_Inr:
  "fetch_loop rome rows acc = Inr result \<Longrightarrow>
   result = acc @ map (\<lambda>r. [barcode r, nome r, cognome r,
                             case format_event_time_ita rome (event_time r) of
                               Inr s \<Rightarrow> s | Inl e \<Rightarrow> []]) rows"
proof (induction rows arbitrary: acc)
  case Nil
  then show ?case by simp
next
  case (Cons r rows)
  from Cons.prems obtain s where s: "format_event_time_ita rome (event_time r) = Inr s"
    by (cases "format_event_time_ita rome (event_time r)") simp_all
  with Cons.prems have "fetch_loop rome rows (acc @ [[barcode r, nome r, cognome r, s]]) = Inr result"
    by simp
  from Cons.IH[OF this] s show ?case by simp
qed

lemma format_event_time_ita_NULL: "format_event_time_ita rome None = Inr ''''"
  by (simp add: format_event_time_ita_def)

lemma fetch_last_inbound_rows_NULL:
  assumes "fetch_last_inbound_rows rome (Inr db) = Inr rows"
    and "r \<in> set (LAST_INBOUND_SQL db)" and "event_time r = None"
  shows "[barcode r, nome r, cognome r, ''''] \<in> set rows"
proof -
  define f :: "view_row \<Rightarrow> string list" where "f = (\<lambda>r. [barcode r, nome r, cognome r,
                        case format_event_time_ita rome (event_time r) of
                          Inr s \<Rightarrow> s | Inl e \<Rightarrow> []])"
  from assms(1) have "fetch_loop rome (LAST_INBOUND_SQL db) [] = Inr rows"
    by (simp add: fetch_last_inbound_rows_def)
  from fetch_loop_Inr[OF this] have rows: "rows = map f (LAST_INBOUND_SQL db)"
    by (simp add: f_def)
  have fr: "f r = [barcode r, nome r, cognome r, '''']"
    by (simp add: f_def assms(3) format_event_time_ita_NULL)
  from assms(2) have "f r \<in> set (map f (LAST_INBOUND_SQL db))" by simp
  then show ?thesis unfolding rows fr .
qed

section \<open>Writing the sheet\<close>

lemma overlay_Nil: "overlay rows [] = rows"
  by (induction rows) simp_all

lemma get_worksheet_up:
  assumes "outages api = []"
  shows "\<exists>api'. get_worksheet api = (None, api') \<and> outages api' = [] \<and>
           cells api' = cells api \<and> calls api' = calls api"
  using assms by (simp add: get_worksheet_def external_call_def Let_def)

lemma get_worksheet_calls: "calls (snd (get_worksheet api)) = calls api"
  by (simp add: get_worksheet_def external_call_def Let_def split: list.splits)

lemma ws_batch_clear_up:
  assumes "outages api = []"
  shows "ws_batch_clear [''A2:D''] api =
     (None, api\<lparr>calls := calls api @ [batch_clear [''A2:D'']], cells := []\<rparr>)"
  using assms by (simp add: ws_batch_clear_def external_call_def Let_def)

lemma ws_batch_clear_calls:
  "calls (snd (ws_batch_clear ranges api)) = calls api @ [batch_clear ranges]"
  by (simp add: ws_batch_clear_def external_call_def Let_def split: list.splits)

lemma ws_update_up:
  assumes "outages api = []"
  shows "ws_update ''A2'' rows api =
     (None, api\<lparr>calls := calls api @ [update ''A2'' rows], cells := overlay rows (cells api)\<rparr>)"
  using assms by (simp add: ws_update_def external_call_def Let_def)

lemma write_full_table_to_sheet_up:
  assumes up: "outages api = []"
  shows "\<exists>api'. write_full_table_to_sheet rows api = (None, api') \<and> outages api' = [] \<and>
           cells api' = rows \<and>
           calls api' = calls api @
             (if rows = [] then [batch_clear [''A2:D'']]
              else [batch_clear [''A2:D''], update ''A2'' rows])"
proof -
  from get_worksheet_up[OF up] obtain api1 where
    g: "get_worksheet api = (None, api1)" and o1: "outages api1 = []"
    and c1: "cells api1 = cells api" "calls api1 = calls api" by blast
  define api2 where "api2 = api1\<lparr>calls := calls api1 @ [batch_clear [''A2:D'']], cells := []\<rparr>"
  have b: "ws_batch_clear [''A2:D''] api1 = (None, api2)"
    unfolding api2_def using o1 by (rule ws_batch_clear_up)
  have o2: "outages api2 = []" by (simp add: api2_def o1)
  show ?thesis
  proof (cases "rows = []")
    case True
    then show ?thesis
      by (simp add: write_full_table_to_sheet_def g b o2) (simp add: api2_def c1)
  next
    case False
    have "ws_update ''A2'' rows api2 =
        (None, api2\<lparr>calls := calls api2 @ [update ''A2'' rows], cells := overlay rows (cells api2)\<rparr>)"
      using o2 by (rule ws_update_up)
    with False show ?thesis
      by (simp add: write_full_table_to_sheet_def g b o2) (simp add: api2_def c1 overlay_Nil o1)
  qed
qed

lemma write_empty_never_updates:
  "calls (snd (write_full_table_to_sheet [] api)) = calls api \<or>
   calls (snd (write_full_table_to_sheet [] api)) = calls api @ [batch_clear [''A2:D'']]"
proof -
  obtain r1 api1 where g: "get_worksheet api = (r1, api1)" by (cases "get_worksheet api")
  then have c1: "calls api1 = calls api" using get_worksheet_calls[of api] by simp
  obtain r2 api2 where b: "ws_batch_clear [''A2:D''] api1 = (r2, api2)"
    by (cases "ws_batch_clear [''A2:D''] api1")
  then have c2: "calls api2 = calls api @ [batch_clear [''A2:D'']]"
    using ws_batch_clear_calls[of "[''A2:D'']" api1] c1 by simp
  show ?thesis
    by (cases r1; cases r2) (simp_all add: write_full_table_to_sheet_def g b c1 c2)
qed

lemma refresh_sheet_from_db_up:
  assumes "outages api = []" and "fetch_last_inbound_rows rome pool = Inr rows"
  shows "fst (refresh_sheet_from_db rome pool api) = None"
    and "cells (snd (refresh_sheet_from_db rome pool api)) = rows"
    and "outages (snd (refresh_sheet_from_db rome pool api)) = []"
proof -
  from write_full_table_to_sheet_up[OF assms(1), of rows] obtain api' where
    w: "write_full_table_to_sheet rows api = (None, api')" and
    p: "outages api' = []" "cells api' = rows" by blast
  have r: "refresh_sheet_from_db rome pool api = (None, api')"
    by (simp add: refresh_sheet_from_db_def assms(2) w)
  show "fst (refresh_sheet_from_db rome pool api) = None"
    and "cells (snd (refresh_sheet_from_db rome pool api)) = rows"
    and "outages (snd (refresh_sheet_from_db rome pool api)) = []"
    by (simp_all add: r p)
qed

lemma refresh_sheet_from_db_fetch_fails:
  assumes "fetch_last_inbound_rows rome pool = Inl e"
  shows "refresh_sheet_from_db rome pool api = (Some e, api)"
  by (simp add: refresh_sheet_from_db_def assms)

text \<open>
  Claim C5. With the spreadsheet service answering, \<open>write_full_table_to_sheet\<close> called
  with no rows clears the range \<open>A2:D\<close> and makes no other call, and called with rows it
  clears that range first and then writes all the rows at \<open>A2\<close>, after which the range
  holds exactly these rows. Called with no rows it never makes a write call, whatever the
  service does.
\<close>

theorem write_full_table_to_sheet_clears_then_writes:
  "(outages api = [] \<longrightarrow>
      fst (write_full_table_to_sheet rows api) = None \<and>
      cells (snd (write_full_table_to_sheet rows api)) = rows \<and>
      calls (snd (write_full_table_to_sheet rows api)) =
        calls api @ (if rows = [] then [batch_clear [''A2:D'']]
                     else [batch_clear [''A2:D''], update ''A2'' rows])) \<and>
   (calls (snd (write_full_table_to_sheet [] api)) = calls api \<or>
    calls (snd (write_full_table_to_sheet [] api)) = calls api @ [batch_clear [''A2:D'']])"
proof (intro conjI impI)
  assume up: "outages api = []"
  from write_full_table_to_sheet_up[OF up, of rows] obtain api' where
    w: "write_full_table_to_sheet rows api = (None, api')" and
    p: "cells api' = rows" "calls api' = calls api @
             (if rows = [] then [batch_clear [''A2:D'']]
              else [batch_clear [''A2:D''], update ''A2'' rows])" by blast
  show "fst (write_full_table_to_sheet rows api) = None" by (simp add: w)
  show "cells (snd (write_full_table_to_sheet rows api)) = rows" by (simp add: w p)
  show "calls (snd (write_full_table_to_sheet rows api)) =
        calls api @ (if rows = [] then [batch_clear [''A2:D'']]
                     else [batch_clear [''A2:D''], update ''A2'' rows])"
    unfolding w using p(2) by simp
next
  show "calls (snd (write_full_table_to_sheet [] api)) = calls api \<or>
    calls (snd (write_full_table_to_sheet [] api)) = calls api @ [batch_clear [''A2:D'']]"
    by (rule write_empty_never_updates)
qed

theorem write_full_table_to_sheet_clears_then_writes_witness:
  "outages sheet_stale = [] \<and>
   cells (snd (write_full_table_to_sheet [ada_row] sheet_stale)) = [ada_row] \<and>
   calls (snd (write_full_table_to_sheet [ada_row] sheet_stale)) =
     [batch_clear [''A2:D''], update ''A2'' [ada_row]] \<and>
   cells (snd (write_full_table_to_sheet [] sheet_stale)) = [] \<and>
   calls (snd (write_full_table_to_sheet [] sheet_stale)) = [batch_clear [''A2:D'']]"
proof -
  have up: "outages sheet_stale = []" and c: "calls sheet_stale = []"
    by (simp_all add: sheet_stale_def)
  from write_full_table_to_sheet_clears_then_writes[of sheet_stale "[ada_row]"]
    write_full_table_to_sheet_clears_then_writes[of sheet_stale "[]"] up c
  show ?thesis by simp
qed

text \<open>
  Claim C6. Two runs of \<open>refresh_sheet_from_db\<close> in a row on the same tables, with the
  spreadsheet service answering, compute the same rows and leave the same contents in the
  sheet: after each of them the range holds exactly the rows computed from the tables,
  whatever it held before. When the rows cannot be computed, each run raises and leaves
  the sheet as it was.
\<close>

theorem refresh_sheet_from_db_idempotent:
  "(outages api = [] \<and> fetch_last_inbound_rows rome (Inr db) = Inr rows \<longrightarrow>
      (let first = refresh_sheet_from_db rome (Inr db) api;
           second = refresh_sheet_from_db rome (Inr db) (snd first)
       in fst first = None \<and> fst second = None \<and>
          cells (snd first) = rows \<and> cells (snd second) = cells (snd first))) \<and>
   (fetch_last_inbound_rows rome (Inr db) = Inl e \<longrightarrow>
      (let first = refresh_sheet_from_db rome (Inr db) api;
           second = refresh_sheet_from_db rome (Inr db) (snd first)
       in fst first = Some e \<and> fst second = Some e \<and>
          cells (snd first) = cells api \<and> cells (snd second) = cells (snd first)))"
proof (intro conjI impI)
  assume a: "outages api = [] \<and> fetch_last_inbound_rows rome (Inr db) = Inr rows"
  define first where "first = refresh_sheet_from_db rome (Inr db) api"
  define second where "second = refresh_sheet_from_db rome (Inr db) (snd first)"
  from a have up: "outages api = []" and f: "fetch_last_inbound_rows rome (Inr db) = Inr rows"
    by simp_all
  note one = refresh_sheet_from_db_up[OF up f, folded first_def]
  note two = refresh_sheet_from_db_up[OF one(3) f, folded second_def]
  from one two show "let first = refresh_sheet_from_db rome (Inr db) api;
           second = refresh_sheet_from_db rome (Inr db) (snd first)
       in fst first = None \<and> fst second = None \<and>
          cells (snd first) = rows \<and> cells (snd second) = cells (snd first)"
    unfolding Let_def first_def second_def by simp
next
  assume f: "fetch_last_inbound_rows rome (Inr db) = Inl e"
  show "let first = refresh_sheet_from_db rome (Inr db) api;
           second = refresh_sheet_from_db rome (Inr db) (snd first)
       in fst first = Some e \<and> fst second = Some e \<and>
          cells (snd first) = cells api \<and> cells (snd second) = cells (snd first)"
    by (simp add: Let_def refresh_sheet_from_db_fetch_fails[OF f])
qed

theorem refresh_sheet_from_db_idempotent_witness:
  "outages sheet_stale = [] \<and>
   fetch_last_inbound_rows europe_rome (Inr \<lparr>users = [ada], log = [checkin_08, checkin_09]\<rparr>) =
     Inr [ada_row] \<and>
   cells (snd (refresh_sheet_from_db europe_rome
                 (Inr \<lparr>users = [ada], log = [checkin_08, checkin_09]\<rparr>) sheet_stale)) = [ada_row] \<and>
   cells (snd (refresh_sheet_from_db europe_rome
                 (Inr \<lparr>users = [ada], log = [checkin_08, checkin_09]\<rparr>)
                 (snd (refresh_sheet_from_db europe_rome
                         (Inr \<lparr>users = [ada], log = [checkin_08, checkin_09]\<rparr>) sheet_stale)))) =
     [ada_row]"
proof -
  let ?db = "\<lparr>users = [ada], log = [checkin_08, checkin_09]\<rparr>"
  have up: "outages sheet_stale = []" by (simp add: sheet_stale_def)
  have f: "fetch_last_inbound_rows europe_rome (Inr ?db) = Inr [ada_row]" by code_simp
  from refresh_sheet_from_db_idempotent[of sheet_stale europe_rome ?db "[ada_row]"] up f
  show ?thesis by (simp add: Let_def)
qed

text \<open>
  Claim C9. For the input \<open>None\<close>, \<open>format_event_time_ita\<close> returns the empty string
  and does not raise; so a row of the derived view whose \<open>event_time\<close> is NULL is among
  the rows \<open>fetch_last_inbound_rows\<close> returns, and is in the sheet after a successful
  refresh, with the empty string as its fourth field.
\<close>

theorem format_event_time_ita_None:
  "format_event_time_ita rome None = Inr '''' \<and>
   (fetch_last_inbound_rows rome (Inr db) = Inr rows \<and>
    r \<in> set (LAST_INBOUND_SQL db) \<and> event_time r = None \<longrightarrow>
      [barcode r, nome r, cognome r, ''''] \<in> set rows) \<and>
   (refresh_sheet_from_db rome (Inr db) api = (None, api') \<and> outages api = [] \<and>
    r \<in> set (LAST_INBOUND_SQL db) \<and> event_time r = None \<longrightarrow>
      [barcode r, nome r, cognome r, ''''] \<in> set (cells api'))"
proof (intro conjI impI)
  show "format_event_time_ita rome None = Inr ''''" by (rule format_event_time_ita_NULL)
next
  assume "fetch_last_inbound_rows rome (Inr db) = Inr rows \<and>
    r \<in> set (LAST_INBOUND_SQL db) \<and> event_time r = None"
  then show "[barcode r, nome r, cognome r, ''''] \<in> set rows"
    by (intro fetch_last_inbound_rows_NULL[of rome db]) simp_all
next
  assume a: "refresh_sheet_from_db rome (Inr db) api = (None, api') \<and> outages api = [] \<and>
    r \<in> set (LAST_INBOUND_SQL db) \<and> event_time r = None"
  show "[barcode r, nome r, cognome r, ''''] \<in> set (cells api')"
  proof (cases "fetch_last_inbound_rows rome (Inr db)")
    case (Inl e)
    from refresh_sheet_from_db_fetch_fails[OF Inl, of api] a show ?thesis by simp
  next
    case (Inr rows)
    from a have "outages api = []" by simp
    from refresh_sheet_from_db_up(2)[OF this Inr] a have "cells api' = rows" by simp
    moreover from a have "[barcode r, nome r, cognome r, ''''] \<in> set rows"
      by (intro fetch_last_inbound_rows_NULL[OF Inr]) simp_all
    ultimately show ?thesis by simp
  qed
qed

theorem format_event_time_ita_None_witness:
  "format_event_time_ita europe_rome None = Inr '''' \<and>
   LAST_INBOUND_SQL \<lparr>users = [ada], log = [checkin_08, checkin_null]\<rparr> =
     [\<lparr>barcode = ''4006381333931'', nome = ''Ada'', cognome = ''Rossi'', event_time = None\<rparr>] \<and>
   [''4006381333931'', ''Ada'', ''Rossi'', ''''] \<in>
     set (cells (snd (refresh_sheet_from_db europe_rome
                        (Inr \<lparr>users = [ada], log = [checkin_08, checkin_null]\<rparr>) sheet_stale)))"
proof -
  let ?db = "\<lparr>users = [ada], log = [checkin_08, checkin_null]\<rparr>"
  let ?r = "\<lparr>barcode = ''4006381333931'', nome = ''Ada'', cognome = ''Rossi'', event_time = None\<rparr>"
  let ?out = "refresh_sheet_from_db europe_rome (Inr ?db) sheet_stale"
  have up: "outages sheet_stale = []" by (simp add: sheet_stale_def)
  have q: "LAST_INBOUND_SQL ?db = [?r]" by code_simp
  have f: "fetch_last_inbound_rows europe_rome (Inr ?db) = Inr [[''4006381333931'', ''Ada'', ''Rossi'', '''']]"
    by code_simp
  have "fst ?out = None" using up f by (rule refresh_sheet_from_db_up)
  then have o: "?out = (None, snd ?out)" by (simp add: prod_eq_iff)
  from format_event_time_ita_None[of europe_rome ?db "[[''4006381333931'', ''Ada'', ''Rossi'', '''']]" ?r sheet_stale "snd ?out"]
    up q o
  show ?thesis by simp
qed

section \<open>The dispatcher\<close>

lemma send_loop_result:
  "send_loop env snapshot registry dead attempted =
     (fold apply_op (concat (map (meanwhile env) snapshot)) registry,
      dead @ filter (send_raises env) snapshot,
      attempted @ snapshot)"
  by (induction snapshot arbitrary: registry dead attempted) (simp_all add: Let_def)

lemma set_fold_removeAll: "set (fold (\<lambda>ws reg. removeAll ws reg) dead reg) = set reg - set dead"
  by (induction dead arbitrary: reg) auto

lemma set_apply_op: "set (apply_op op reg) \<subseteq> set reg \<union> {v. op = add v}"
  by (cases op) auto

lemma set_fold_apply_op: "set (fold apply_op ops reg) \<subseteq> set reg \<union> {v. add v \<in> set ops}"
proof (induction ops arbitrary: reg)
  case Nil
  show ?case by simp
next
  case (Cons op ops)
  have "set (fold apply_op ops (apply_op op reg)) \<subseteq> set (apply_op op reg) \<union> {v. add v \<in> set ops}"
    by (rule Cons.IH)
  also have "\<dots> \<subseteq> (set reg \<union> {v. op = add v}) \<union> {v. add v \<in> set ops}"
    using set_apply_op[of op reg] by blast
  finally show ?case by auto
qed

lemma notification_dispatcher_blocked:
  "notification_queue s = [] \<Longrightarrow> notification_dispatcher env s = s"
  by (simp add: notification_dispatcher_def)

lemma notification_dispatcher_event:
  assumes "notification_queue s = ev # queue"
  shows "notification_dispatcher env s =
     s\<lparr>notification_queue := queue,
       connected_websockets :=
         fold (\<lambda>ws reg. removeAll ws reg) (filter (send_raises env) (connected_websockets s))
           (fold apply_op (concat (map (meanwhile env) (connected_websockets s))) (connected_websockets s)),
       broadcasts := broadcasts s @ [(logs_changed ev, connected_websockets s)],
       pending_tasks := pending_tasks s + 1\<rparr>"
  using assms by (simp add: notification_dispatcher_def send_loop_result Let_def)

lemma dispatcher_registry_subset:
  "set (connected_websockets (notification_dispatcher env s)) \<subseteq>
     set (connected_websockets s) \<union> {v. \<exists>ws. add v \<in> set (meanwhile env ws)}"
proof (cases "notification_queue s")
  case Nil
  then show ?thesis by (simp add: notification_dispatcher_blocked)
next
  case (Cons ev queue)
  have "set (fold apply_op (concat (map (meanwhile env) (connected_websockets s))) (connected_websockets s))
      \<subseteq> set (connected_websockets s) \<union> {v. add v \<in> set (concat (map (meanwhile env) (connected_websockets s)))}"
    by (rule set_fold_apply_op)
  then show ?thesis
    by (auto simp: notification_dispatcher_event[OF Cons] set_fold_removeAll)
qed

lemma run_Nil: "run rome [] s = s"
  by (simp add: run_def)

lemma run_Cons: "run rome (st # steps) s = run rome steps (exec rome st s)"
  by (simp add: run_def)

lemma exec_broadcasts_prefix:
  "\<exists>new. broadcasts (exec rome st s) = broadcasts s @ new \<and>
     (\<forall>b\<in>set new. snd b = connected_websockets s)"
proof (cases st)
  case (Dispatch env)
  show ?thesis
  proof (cases "notification_queue s")
    case Nil
    then show ?thesis by (simp add: Dispatch notification_dispatcher_blocked)
  next
    case (Cons ev queue)
    then show ?thesis by (simp add: Dispatch notification_dispatcher_event[OF Cons])
  qed
next
  case (RunTask pool)
  then show ?thesis by (simp add: run_task_def Let_def split: prod.splits)
qed simp_all

lemma exec_keeps_absent:
  assumes "w \<notin> set (connected_websockets s)" "\<not> adds w st"
  shows "w \<notin> set (connected_websockets (exec rome st s))"
proof (cases st)
  case (Dispatch env)
  with assms dispatcher_registry_subset[of env s] show ?thesis by auto
next
  case (RunTask pool)
  with assms show ?thesis by (simp add: run_task_def Let_def split: prod.splits)
qed (use assms in auto)

lemma run_keeps_absent:
  assumes "w \<notin> set (connected_websockets s)" "\<forall>st\<in>set steps. \<not> adds w st"
  shows "\<exists>new. broadcasts (run rome steps s) = broadcasts s @ new \<and>
           (\<forall>b\<in>set new. w \<notin> set (snd b)) \<and>
           w \<notin> set (connected_websockets (run rome steps s))"
  using assms
proof (induction steps arbitrary: s)
  case Nil
  then show ?case by (simp add: run_Nil)
next
  case (Cons st steps)
  let ?s1 = "exec rome st s"
  from Cons.prems have a1: "w \<notin> set (connected_websockets ?s1)"
    by (intro exec_keeps_absent) simp_all
  from Cons.prems have "\<forall>st\<in>set steps. \<not> adds w st" by simp
  from Cons.IH[OF a1 this] obtain new2 where
    n2: "broadcasts (run rome steps ?s1) = broadcasts ?s1 @ new2"
    and w2: "\<forall>b\<in>set new2. w \<notin> set (snd b)"
    and r2: "w \<notin> set (connected_websockets (run rome steps ?s1))" by blast
  obtain new1 where n1: "broadcasts ?s1 = broadcasts s @ new1"
    and att: "\<forall>b\<in>set new1. snd b = connected_websockets s"
    using exec_broadcasts_prefix[of rome st s] by blast
  from att Cons.prems(1) have w1: "\<forall>b\<in>set new1. w \<notin> set (snd b)" by simp
  have "broadcasts (run rome (st # steps) s) = broadcasts s @ (new1 @ new2)"
    by (simp add: run_Cons n2 n1)
  moreover have "\<forall>b\<in>set (new1 @ new2). w \<notin> set (snd b)" using w1 w2 by auto
  moreover have "w \<notin> set (connected_websockets (run rome (st # steps) s))"
    using r2 by (simp add: run_Cons)
  ultimately show ?case by blast
qed

text \<open>
  Claim C2. In one broadcast the message is sent to every websocket of the snapshot,
  whether or not an earlier send raised; every websocket whose send raised is out of the
  registry when the broadcast ends; and unless it is registered again, it stays out of the
  registry and of every later broadcast, whatever the process does next. With three
  websockets registered, of which only the second fails, the registry afterwards holds the
  first and the third.
\<close>

theorem broadcast_isolates_failures:
  "notification_queue s = ev # queue \<longrightarrow>
     snd (last (broadcasts (notification_dispatcher env s))) = connected_websockets s \<and>
     (\<forall>w\<in>set (connected_websockets s). send_raises env w \<longrightarrow>
        w \<notin> set (connected_websockets (notification_dispatcher env s))) \<and>
     (\<forall>w\<in>set (connected_websockets s).
        send_raises env w \<and> (\<forall>st\<in>set steps. \<not> adds w st) \<longrightarrow>
          w \<notin> set (connected_websockets (run rome steps (notification_dispatcher env s))) \<and>
          (\<forall>b\<in>set (drop (length (broadcasts (notification_dispatcher env s)))
                         (broadcasts (run rome steps (notification_dispatcher env s)))).
             w \<notin> set (snd b))) \<and>
     (connected_websockets s = [c1, c2, c3] \<and> distinct [c1, c2, c3] \<and>
      \<not> send_raises env c1 \<and> send_raises env c2 \<and> \<not> send_raises env c3 \<and>
      (\<forall>ws. meanwhile env ws = []) \<longrightarrow>
        connected_websockets (notification_dispatcher env s) = [c1, c3])"
proof (intro impI)
  assume q: "notification_queue s = ev # queue"
  let ?s1 = "notification_dispatcher env s"
  note ev = notification_dispatcher_event[OF q, of env]
  have all: "snd (last (broadcasts ?s1)) = connected_websockets s" by (simp add: ev)
  have gone: "\<forall>w\<in>set (connected_websockets s). send_raises env w \<longrightarrow>
           w \<notin> set (connected_websockets ?s1)"
    by (simp add: ev set_fold_removeAll)
  have later: "\<forall>w\<in>set (connected_websockets s).
        send_raises env w \<and> (\<forall>st\<in>set steps. \<not> adds w st) \<longrightarrow>
           w \<notin> set (connected_websockets (run rome steps ?s1)) \<and>
           (\<forall>b\<in>set (drop (length (broadcasts ?s1)) (broadcasts (run rome steps ?s1))).
              w \<notin> set (snd b))"
  proof (intro ballI impI)
    fix w assume w: "w \<in> set (connected_websockets s)"
      and h: "send_raises env w \<and> (\<forall>st\<in>set steps. \<not> adds w st)"
    from gone w h have "w \<notin> set (connected_websockets ?s1)" by blast
    from run_keeps_absent[OF this, of steps rome] h obtain new where
      "broadcasts (run rome steps ?s1) = broadcasts ?s1 @ new"
      "\<forall>b\<in>set new. w \<notin> set (snd b)"
      "w \<notin> set (connected_websockets (run rome steps ?s1))" by blast
    then show "w \<notin> set (connected_websockets (run rome steps ?s1)) \<and>
           (\<forall>b\<in>set (drop (length (broadcasts ?s1)) (broadcasts (run rome steps ?s1))).
              w \<notin> set (snd b))" by simp
  qed
  have three: "connected_websockets s = [c1, c2, c3] \<and> distinct [c1, c2, c3] \<and>
         \<not> send_raises env c1 \<and> send_raises env c2 \<and> \<not> send_raises env c3 \<and>
         (\<forall>ws. meanwhile env ws = []) \<longrightarrow>
           connected_websockets ?s1 = [c1, c3]"
    by (auto simp: ev)
  from all gone later three
  show "snd (last (broadcasts ?s1)) = connected_websockets s \<and>
     (\<forall>w\<in>set (connected_websockets s). send_raises env w \<longrightarrow>
        w \<notin> set (connected_websockets ?s1)) \<and>
     (\<forall>w\<in>set (connected_websockets s).
        send_raises env w \<and> (\<forall>st\<in>set steps. \<not> adds w st) \<longrightarrow>
          w \<notin> set (connected_websockets (run rome steps ?s1)) \<and>
          (\<forall>b\<in>set (drop (length (broadcasts ?s1)) (broadcasts (run rome steps ?s1))).
             w \<notin> set (snd b))) \<and>
     (connected_websockets s = [c1, c2, c3] \<and> distinct [c1, c2, c3] \<and>
      \<not> send_raises env c1 \<and> send_raises env c2 \<and> \<not> send_raises env c3 \<and>
      (\<forall>ws. meanwhile env ws = []) \<longrightarrow>
        connected_websockets ?s1 = [c1, c3])"
    by (intro conjI)
qed

theorem broadcast_isolates_failures_witness:
  "notification_queue three_subscribers = two_events \<and>
   connected_websockets three_subscribers = [1, 2, 3] \<and>
   connected_websockets (notification_dispatcher second_fails three_subscribers) = [1, 3] \<and>
   2 \<notin> set (connected_websockets
              (run europe_rome [Dispatch all_delivered, Connect 7]
                 (notification_dispatcher second_fails three_subscribers)))"
proof -
  have q: "notification_queue three_subscribers =
      \<lparr>channel = ''log_changes'', payload = ''1''\<rparr> # [\<lparr>channel = ''log_changes'', payload = ''2''\<rparr>]"
    by (simp add: three_subscribers_def two_events_def)
  have c: "connected_websockets three_subscribers = [1, 2, 3]"
    by (simp add: three_subscribers_def)
  have e: "\<not> send_raises second_fails 1" "send_raises second_fails 2" "\<not> send_raises second_fails 3"
    "\<forall>ws. meanwhile second_fails ws = []"
    by (simp_all add: second_fails_def)
  have n: "\<forall>st\<in>set [Dispatch all_delivered, Connect 7]. \<not> adds 2 st"
    by (simp add: all_delivered_def)
  note T = broadcast_isolates_failures[of three_subscribers _ _ second_fails
      "[Dispatch all_delivered, Connect 7]" europe_rome 1 2 3, rule_format, OF q]
  from T c e have a: "connected_websockets (notification_dispatcher second_fails three_subscribers) = [1, 3]"
    by simp
  from T c e n have b: "2 \<notin> set (connected_websockets
              (run europe_rome [Dispatch all_delivered, Connect 7]
                 (notification_dispatcher second_fails three_subscribers)))"
    by simp
  from q c a b show ?thesis by (simp add: two_events_def)
qed

lemma exec_messages:
  "map fst (broadcasts (exec rome st s)) @ map logs_changed (notification_queue (exec rome st s))
     = map fst (broadcasts s) @ map logs_changed (notification_queue s @ notified [st])"
proof (cases st)
  case (Dispatch env)
  show ?thesis
  proof (cases "notification_queue s")
    case Nil
    then show ?thesis by (simp add: Dispatch notification_dispatcher_blocked)
  next
    case (Cons ev queue)
    then show ?thesis by (simp add: Dispatch notification_dispatcher_event[OF Cons])
  qed
next
  case (RunTask pool)
  then show ?thesis by (simp add: run_task_def Let_def split: prod.splits)
qed simp_all

lemma notified_Cons: "notified (st # steps) = notified [st] @ notified steps"
  by (cases st) simp_all

lemma run_messages:
  "map fst (broadcasts (run rome steps s)) @ map logs_changed (notification_queue (run rome steps s))
     = map fst (broadcasts s) @ map logs_changed (notification_queue s @ notified steps)"
proof (induction steps arbitrary: s)
  case Nil
  show ?case by (simp add: run_Nil)
next
  case (Cons st steps)
  have "map fst (broadcasts (run rome (st # steps) s)) @
        map logs_changed (notification_queue (run rome (st # steps) s))
      = map fst (broadcasts (exec rome st s)) @
        map logs_changed (notification_queue (exec rome st s) @ notified steps)"
    using Cons.IH[of "exec rome st s"] by (simp add: run_Cons)
  also have "\<dots> = (map fst (broadcasts (exec rome st s)) @
        map logs_changed (notification_queue (exec rome st s))) @ map logs_changed (notified steps)"
    by simp
  also have "\<dots> = (map fst (broadcasts s) @ map logs_changed (notification_queue s @ notified [st]))
        @ map logs_changed (notified steps)"
    by (simp only: exec_messages)
  also have "\<dots> = map fst (broadcasts s) @ map logs_changed (notification_queue s @ notified (st # steps))"
    by (subst (2) notified_Cons) simp
  finally show ?case .
qed

lemma exec_queue_length:
  assumes "notified [st] = []"
  shows "length (notification_queue (exec rome st s)) = length (notification_queue s) - dispatches [st]"
proof (cases st)
  case (Dispatch env)
  show ?thesis
  proof (cases "notification_queue s")
    case Nil
    then show ?thesis by (simp add: Dispatch notification_dispatcher_blocked)
  next
    case (Cons ev queue)
    then show ?thesis by (simp add: Dispatch notification_dispatcher_event[OF Cons])
  qed
next
  case (RunTask pool)
  then show ?thesis by (simp add: run_task_def Let_def split: prod.splits)
qed (use assms in simp_all)

lemma dispatches_Cons: "dispatches (st # steps) = dispatches [st] + dispatches steps"
  by (cases st) simp_all

lemma run_queue_length:
  assumes "notified steps = []"
  shows "length (notification_queue (run rome steps s)) = length (notification_queue s) - dispatches steps"
  using assms
proof (induction steps arbitrary: s)
  case Nil
  show ?case by (simp add: run_Nil)
next
  case (Cons st steps)
  from Cons.prems have n: "notified [st] = []" "notified steps = []"
    by (subst (asm) notified_Cons, simp)+
  have "length (notification_queue (run rome (st # steps) s))
      = length (notification_queue (exec rome st s)) - dispatches steps"
    using Cons.IH[OF n(2), of "exec rome st s"] by (simp add: run_Cons)
  also have "\<dots> = length (notification_queue s) - dispatches [st] - dispatches steps"
    by (simp add: exec_queue_length[OF n(1)])
  also have "\<dots> = length (notification_queue s) - dispatches (st # steps)"
    by (subst (2) dispatches_Cons) simp
  finally show ?case .
qed

lemma dispatcher_drains_queue:
  assumes "notified steps = []" "length (notification_queue s) \<le> dispatches steps"
  shows "notification_queue (run rome steps s) = []"
    and "map fst (broadcasts (run rome steps s)) = map fst (broadcasts s) @ map logs_changed (notification_queue s)"
    and "length (broadcasts (run rome steps s)) = length (broadcasts s) + length (notification_queue s)"
proof -
  from run_queue_length[OF assms(1), of rome s] assms(2)
  show e: "notification_queue (run rome steps s) = []" by simp
  from run_messages[of rome steps s] e assms(1)
  show m: "map fst (broadcasts (run rome steps s)) = map fst (broadcasts s) @ map logs_changed (notification_queue s)"
    by simp
  from arg_cong[OF m, of length]
  show "length (broadcasts (run rome steps s)) = length (broadcasts s) + length (notification_queue s)"
    by simp
qed

text \<open>
  Claim C3. In every run, the messages broadcast so far followed by the messages of the
  events still queued are the messages of all events received, in the order of receipt,
  the message of an event being \<open>{type: "logs_changed", channel, payload}\<close> with the
  event's channel and payload. So once the dispatcher has made as many iterations as
  there were events on the queue (no further event arriving), it has made exactly one
  broadcast per event, in queue order, and the queue is empty.
\<close>

theorem dispatcher_broadcasts_in_order:
  "map fst (broadcasts (run rome steps s)) @
     map logs_changed (notification_queue (run rome steps s)) =
   map fst (broadcasts s) @ map logs_changed (notification_queue s @ notified steps) \<and>
   (notified steps = [] \<and> length (notification_queue s) \<le> dispatches steps \<longrightarrow>
      notification_queue (run rome steps s) = [] \<and>
      map fst (broadcasts (run rome steps s)) =
        map fst (broadcasts s) @ map logs_changed (notification_queue s) \<and>
      length (broadcasts (run rome steps s)) =
        length (broadcasts s) + length (notification_queue s))"
proof (intro conjI impI)
  show "map fst (broadcasts (run rome steps s)) @
     map logs_changed (notification_queue (run rome steps s)) =
   map fst (broadcasts s) @ map logs_changed (notification_queue s @ notified steps)"
    by (rule run_messages)
next
  assume "notified steps = [] \<and> length (notification_queue s) \<le> dispatches steps"
  then have a: "notified steps = []" "length (notification_queue s) \<le> dispatches steps"
    by simp_all
  show "notification_queue (run rome steps s) = []"
    and "map fst (broadcasts (run rome steps s)) =
        map fst (broadcasts s) @ map logs_changed (notification_queue s)"
    and "length (broadcasts (run rome steps s)) =
        length (broadcasts s) + length (notification_queue s)"
    by (rule dispatcher_drains_queue[OF a])+
qed

theorem dispatcher_broadcasts_in_order_witness:
  "notified [Dispatch second_fails, RunTask (Inl PostgresError), Dispatch all_delivered] = [] \<and>
   notification_queue
     (run europe_rome [Dispatch second_fails, RunTask (Inl PostgresError), Dispatch all_delivered]
        three_subscribers) = [] \<and>
   map fst (broadcasts
     (run europe_rome [Dispatch second_fails, RunTask (Inl PostgresError), Dispatch all_delivered]
        three_subscribers)) = map logs_changed two_events"
proof -
  let ?steps = "[Dispatch second_fails, RunTask (Inl PostgresError), Dispatch all_delivered]"
  have a: "notified ?steps = []" by simp
  have b: "length (notification_queue three_subscribers) \<le> dispatches ?steps"
    by (simp add: three_subscribers_def two_events_def)
  have c: "broadcasts three_subscribers = []" "notification_queue three_subscribers = two_events"
    by (simp_all add: three_subscribers_def)
  from dispatcher_broadcasts_in_order[of europe_rome ?steps three_subscribers] a b c
  show ?thesis by simp
qed

text \<open>
  Claim C7. The broadcast walks the copy of the registry taken before the first send:
  whatever registrations and unregistrations the connection handlers perform while the
  dispatcher is suspended in a send, the iteration runs to its end (the event is
  consumed, the broadcast is made, the sync task is created), the message has been sent
  to exactly the websockets registered when the broadcast started, in their order, and
  the registry then is what the handlers made of it, less the websockets whose send
  raised.
\<close>

theorem broadcast_uses_snapshot:
  "notification_queue s = ev # queue \<longrightarrow>
     broadcasts (notification_dispatcher env s) =
       broadcasts s @ [(logs_changed ev, connected_websockets s)] \<and>
     notification_queue (notification_dispatcher env s) = queue \<and>
     pending_tasks (notification_dispatcher env s) = pending_tasks s + 1 \<and>
     set (connected_websockets (notification_dispatcher env s)) =
       set (fold apply_op (concat (map (meanwhile env) (connected_websockets s)))
              (connected_websockets s))
       - {w. w \<in> set (connected_websockets s) \<and> send_raises env w}"
proof (intro impI)
  assume q: "notification_queue s = ev # queue"
  show "broadcasts (notification_dispatcher env s) =
       broadcasts s @ [(logs_changed ev, connected_websockets s)] \<and>
     notification_queue (notification_dispatcher env s) = queue \<and>
     pending_tasks (notification_dispatcher env s) = pending_tasks s + 1 \<and>
     set (connected_websockets (notification_dispatcher env s)) =
       set (fold apply_op (concat (map (meanwhile env) (connected_websockets s)))
              (connected_websockets s))
       - {w. w \<in> set (connected_websockets s) \<and> send_raises env w}"
    unfolding notification_dispatcher_event[OF q]
    by (simp add: set_fold_removeAll)
qed

theorem broadcast_uses_snapshot_witness:
  "broadcasts (notification_dispatcher busy_handlers three_subscribers) =
     [(\<lparr>msg_type = ''logs_changed'', msg_channel = ''log_changes'', msg_payload = ''1''\<rparr>, [1, 2, 3])] \<and>
   set (connected_websockets (notification_dispatcher busy_handlers three_subscribers)) = {1, 2, 9}"
proof -
  have q: "notification_queue three_subscribers =
      \<lparr>channel = ''log_changes'', payload = ''1''\<rparr> # [\<lparr>channel = ''log_changes'', payload = ''2''\<rparr>]"
    by (simp add: three_subscribers_def two_events_def)
  have c: "connected_websockets three_subscribers = [1, 2, 3]" "broadcasts three_subscribers = []"
    by (simp_all add: three_subscribers_def)
  have m: "fold apply_op (concat (map (meanwhile busy_handlers) [1, 2, 3])) [1, 2, 3] = [1, 2, 9]"
    by (simp add: busy_handlers_def)
  have r: "{w. w \<in> set [1, 2, 3::nat] \<and> send_raises busy_handlers w} = {}"
    by (simp add: busy_handlers_def)
  from broadcast_uses_snapshot[of three_subscribers _ _ busy_handlers, rule_format, OF q]
  show ?thesis unfolding c m r by simp
qed

lemma run_task_view: "dispatcher_view (run_task rome pool s) = dispatcher_view s"
  by (simp add: run_task_def dispatcher_view_def Let_def split: prod.splits)

lemma notification_dispatcher_view:
  assumes "dispatcher_view s = dispatcher_view t"
  shows "dispatcher_view (notification_dispatcher env s) = dispatcher_view (notification_dispatcher env t)"
proof -
  from assms have v: "notification_queue t = notification_queue s"
    "connected_websockets t = connected_websockets s" "broadcasts t = broadcasts s"
    by (simp_all add: dispatcher_view_def)
  show ?thesis
  proof (cases "notification_queue s")
    case Nil
    with v show ?thesis by (simp add: notification_dispatcher_blocked dispatcher_view_def)
  next
    case (Cons ev queue)
    with v have tq: "notification_queue t = ev # queue" by simp
    have a: "dispatcher_view (notification_dispatcher env s) =
       (queue, fold (\<lambda>ws reg. removeAll ws reg) (filter (send_raises env) (connected_websockets s))
           (fold apply_op (concat (map (meanwhile env) (connected_websockets s))) (connected_websockets s)),
        broadcasts s @ [(logs_changed ev, connected_websockets s)])"
      by (simp add: dispatcher_view_def notification_dispatcher_event[OF Cons])
    have b: "dispatcher_view (notification_dispatcher env t) =
       (queue, fold (\<lambda>ws reg. removeAll ws reg) (filter (send_raises env) (connected_websockets t))
           (fold apply_op (concat (map (meanwhile env) (connected_websockets t))) (connected_websockets t)),
        broadcasts t @ [(logs_changed ev, connected_websockets t)])"
      by (simp add: dispatcher_view_def notification_dispatcher_event[OF tq])
    show ?thesis unfolding a b v by (rule refl)
  qed
qed

lemma exec_view:
  assumes "dispatcher_view s = dispatcher_view t" "\<not> is_RunTask st"
  shows "dispatcher_view (exec rome st s) = dispatcher_view (exec rome st t)"
proof -
  from assms(1) have v: "notification_queue t = notification_queue s"
    "connected_websockets t = connected_websockets s" "broadcasts t = broadcasts s"
    by (simp_all add: dispatcher_view_def)
  show ?thesis
  proof (cases st)
    case (Notify ev)
    then show ?thesis by (simp add: dispatcher_view_def v)
  next
    case (Connect ws)
    then show ?thesis by (simp add: dispatcher_view_def v)
  next
    case (Disconnect ws)
    then show ?thesis by (simp add: dispatcher_view_def v)
  next
    case (Dispatch env)
    then show ?thesis using notification_dispatcher_view[OF assms(1), of env] by simp
  next
    case (RunTask pool)
    with assms(2) show ?thesis by simp
  qed
qed

lemma run_view_without_tasks:
  assumes "dispatcher_view s = dispatcher_view t"
  shows "dispatcher_view (run rome steps s) = dispatcher_view (run rome (filter (\<lambda>st. \<not> is_RunTask st) steps) t)"
  using assms
proof (induction steps arbitrary: s t)
  case Nil
  then show ?case by (simp add: run_Nil)
next
  case (Cons st steps)
  show ?case
  proof (cases "is_RunTask st")
    case True
    then obtain pool where st: "st = RunTask pool" by (cases st) auto
    have "dispatcher_view (exec rome st s) = dispatcher_view t"
      using Cons.prems by (simp add: st run_task_view)
    from Cons.IH[OF this] True show ?thesis by (simp add: run_Cons)
  next
    case False
    from exec_view[OF Cons.prems False]
    have "dispatcher_view (exec rome st s) = dispatcher_view (exec rome st t)" .
    from Cons.IH[OF this] False show ?thesis by (simp add: run_Cons)
  qed
qed

lemma exec_task_count:
  "pending_tasks (exec rome st s) + length (task_results (exec rome st s)) + length (broadcasts s)
     = pending_tasks s + length (task_results s) + length (broadcasts (exec rome st s))"
proof (cases st)
  case (Dispatch env)
  show ?thesis
  proof (cases "notification_queue s")
    case Nil
    then show ?thesis by (simp add: Dispatch notification_dispatcher_blocked)
  next
    case (Cons ev queue)
    then show ?thesis by (simp add: Dispatch notification_dispatcher_event[OF Cons])
  qed
next
  case (RunTask pool)
  then show ?thesis by (simp add: run_task_def Let_def split: prod.splits)
qed simp_all

lemma run_task_count:
  "pending_tasks (run rome steps s) + length (task_results (run rome steps s)) + length (broadcasts s)
     = pending_tasks s + length (task_results s) + length (broadcasts (run rome steps s))"
proof (induction steps arbitrary: s)
  case Nil
  show ?case by (simp add: run_Nil)
next
  case (Cons st steps)
  from Cons.IH[of "exec rome st s"] exec_task_count[of rome st s]
  show ?case by (simp add: run_Cons)
qed

text \<open>
  Claim C8. Whatever happens inside the sync runs, be it a failing query or a failing
  clear or write of the sheet, the dispatcher does not see it: in every run of the
  process the queue, the registry and the broadcasts are those of the same run with the
  sync runs left out. And no sync run is ever scheduled again: the number of sync tasks
  created (waiting or finished, failed or not) grows by exactly one per broadcast.
\<close>

theorem sync_failures_are_contained:
  "dispatcher_view (run rome steps s) =
     dispatcher_view (run rome (filter (\<lambda>st. \<not> is_RunTask st) steps) s) \<and>
   pending_tasks (run rome steps s) + length (task_results (run rome steps s)) +
     length (broadcasts s) =
   pending_tasks s + length (task_results s) + length (broadcasts (run rome steps s))"
  using run_view_without_tasks[of s s rome steps] run_task_count[of rome steps s]
  by simp

theorem sync_failures_are_contained_witness:
  "task_results
     (run europe_rome
        [Dispatch second_fails, RunTask (Inl PostgresError), Dispatch all_delivered,
         RunTask (Inr \<lparr>users = [ada], log = [checkin_08]\<rparr>)]
        (three_subscribers\<lparr>sheets := sheet_down\<rparr>)) = [Some PostgresError, Some APIError] \<and>
   dispatcher_view
     (run europe_rome
        [Dispatch second_fails, RunTask (Inl PostgresError), Dispatch all_delivered,
         RunTask (Inr \<lparr>users = [ada], log = [checkin_08]\<rparr>)]
        (three_subscribers\<lparr>sheets := sheet_down\<rparr>)) =
   dispatcher_view
     (run europe_rome [Dispatch second_fails, Dispatch all_delivered]
        (three_subscribers\<lparr>sheets := sheet_down\<rparr>))"
proof -
  let ?steps = "[Dispatch second_fails, RunTask (Inl PostgresError), Dispatch all_delivered,
         RunTask (Inr \<lparr>users = [ada], log = [checkin_08]\<rparr>)]"
  let ?s = "three_subscribers\<lparr>sheets := sheet_down\<rparr>"
  have r: "task_results (run europe_rome ?steps ?s) = [Some PostgresError, Some APIError]"
    by code_simp
  from sync_failures_are_contained[of europe_rome ?steps ?s] r
  show ?thesis by simp
qed

end
